theory Spec2Isabelle
  imports Main "HOL-Library.Sublist"
begin

section \<open>Data model of i18n-sync.ts\<close>

text \<open>
  \<^verbatim>\<open>type JsonValue = string | number | boolean | null | JsonObject | JsonArray\<close>.
  A \<^verbatim>\<open>JsonObject\<close> is kept as the list of its own properties in the order
  \<^verbatim>\<open>Object.entries\<close> enumerates them; its keys are pairwise different
  (predicate \<open>wf_fields\<close> below). Property names are ordinary own properties: the
  inherited accessor \<^verbatim>\<open>__proto__\<close> is not part of the model. Numbers are never
  inspected by the program, so their payload is an integer.
\<close>

datatype json =
    JString string
  | JNumber int
  | JBool bool
  | JNull
  | JObject "(string \<times> json) list"
  | JArray "json list"

type_synonym fields = "(string \<times> json) list"

text \<open>\<^verbatim>\<open>type TranslationKey = { key: string[]; value: string }\<close>\<close>

record TranslationKey =
  key :: "string list"
  "value" :: string

text \<open>Everything the program can throw, as values.\<close>

datatype error =
    HttpError        \<comment> \<open>fetch rejected, timed out, status not ok, or body not JSON\<close>
  | InvalidPayload   \<comment> \<open>\<^verbatim>\<open>Invalid translations payload.\<close> or a \<^verbatim>\<open>JSON.parse\<close> failure of the content\<close>
  | Unreachable      \<comment> \<open>\<^verbatim>\<open>throw new Error("unreachable")\<close>\<close>
  | NoI18nDir        \<comment> \<open>\<^verbatim>\<open>Could not find i18n directory\<close>\<close>
  | IoFailure        \<comment> \<open>readFile, readdir, writeFile or JSON.parse of a file failed\<close>


section \<open>The tree differ\<close>

text \<open>\<^verbatim>\<open>typeof\<close> of a value that may be \<^verbatim>\<open>undefined\<close> (\<open>None\<close>: the property is absent).\<close>

datatype jstype = TString | TNumber | TBoolean | TObject | TUndefined

fun typeof :: "json option \<Rightarrow> jstype" where
  "typeof None = TUndefined"
| "typeof (Some (JString s)) = TString"
| "typeof (Some (JNumber n)) = TNumber"
| "typeof (Some (JBool b)) = TBoolean"
| "typeof (Some JNull) = TObject"
| "typeof (Some (JObject fs)) = TObject"
| "typeof (Some (JArray xs)) = TObject"

fun isArray :: "json option \<Rightarrow> bool" where
  "isArray (Some (JArray xs)) = True"
| "isArray v = False"

definition isTypeObject :: "json option \<Rightarrow> bool" where
  "isTypeObject v = (typeof v = TObject \<and> v \<noteq> Some JNull \<and> \<not> isArray v)"

text \<open>\<^verbatim>\<open>target[key] = v\<close>: an existing property keeps its place, a new one goes last.\<close>

fun set_prop :: "fields \<Rightarrow> string \<Rightarrow> json \<Rightarrow> fields" where
  "set_prop [] k v = [(k, v)]"
| "set_prop ((k', v') # rest) k v =
     (if k' = k then (k, v) # rest else (k', v') # set_prop rest k v)"

text \<open>
  \<^verbatim>\<open>addMissingKeys(source, target, keyPath, keys)\<close> mutates \<open>target\<close> and \<open>keys\<close> in
  place; the model returns both. The loop over \<^verbatim>\<open>Object.entries(source)\<close> is the
  recursion over the list (\<open>k\<close> is the loop's \<^verbatim>\<open>key\<close>), and the equations
  follow the tests of the loop body on \<open>sourceValue\<close>: \<^verbatim>\<open>isTypeObject\<close> holds of
  objects only, \<^verbatim>\<open>typeof sourceValue !== "string"\<close> of everything else but strings.
  Where the source value is an object, the nested object of the target (a fresh
  \<^verbatim>\<open>{}\<close> when the target holds no object there) is walked and, being shared with
  the target, stored back under the same key.
\<close>

function addMissingKeys ::
  "fields \<Rightarrow> fields \<Rightarrow> string list \<Rightarrow> TranslationKey list \<Rightarrow> fields \<times> TranslationKey list"
where
  "addMissingKeys [] target keyPath keys = (target, keys)"
| "addMissingKeys ((k, JObject src) # rest) target keyPath keys =
     (let currentPath = keyPath @ [k];
          targetValue = map_of target k;
          target1 = (if \<not> isTypeObject targetValue then set_prop target k (JObject []) else target);
          sub = (case map_of target1 k of Some (JObject t) \<Rightarrow> t | _ \<Rightarrow> []);
          (sub', keys') = addMissingKeys src sub currentPath keys
      in addMissingKeys rest (set_prop target1 k (JObject sub')) keyPath keys')"
| "addMissingKeys ((k, JString sourceValue) # rest) target keyPath keys =
     (let currentPath = keyPath @ [k];
          targetValue = map_of target k
      in if typeof targetValue = TString
            \<and> (case targetValue of Some (JString t) \<Rightarrow> length t > 0 | _ \<Rightarrow> False) then
           addMissingKeys rest target keyPath keys
         else
           addMissingKeys rest (set_prop target k (JString []))
             keyPath (keys @ [\<lparr>key = currentPath, value = sourceValue\<rparr>]))"
| "addMissingKeys ((k, JNumber n) # rest) target keyPath keys =
     addMissingKeys rest target keyPath keys"
| "addMissingKeys ((k, JBool b) # rest) target keyPath keys =
     addMissingKeys rest target keyPath keys"
| "addMissingKeys ((k, JNull) # rest) target keyPath keys =
     addMissingKeys rest target keyPath keys"
| "addMissingKeys ((k, JArray xs) # rest) target keyPath keys =
     addMissingKeys rest target keyPath keys"
  by pat_completeness auto
termination
  by (relation "measure (\<lambda>(source, target, keyPath, keys). size (JObject source))") auto

text \<open>The value a tree holds at a path of keys, walking through objects only.\<close>

fun lookup_path :: "fields \<Rightarrow> string list \<Rightarrow> json option" where
  "lookup_path fs [] = Some (JObject fs)"
| "lookup_path fs [k] = map_of fs k"
| "lookup_path fs (k # ks) =
     (case map_of fs k of Some (JObject sub) \<Rightarrow> lookup_path sub ks | _ \<Rightarrow> None)"

text \<open>The rule by which a leaf counts as missing in the target.\<close>

definition missing_in :: "fields \<Rightarrow> string list \<Rightarrow> bool" where
  "missing_in target p =
     (case lookup_path target p of
        None \<Rightarrow> True
      | Some (JString s) \<Rightarrow> s = []
      | Some _ \<Rightarrow> True)"

text \<open>An object has each key once, at every depth that the differ walks.\<close>

function wf_fields :: "fields \<Rightarrow> bool" where
  "wf_fields [] = True"
| "wf_fields ((k, v) # rest) =
     (k \<notin> fst ` set rest
      \<and> (case v of JObject fs \<Rightarrow> wf_fields fs | _ \<Rightarrow> True)
      \<and> wf_fields rest)"
  by pat_completeness auto
termination
  by (relation "measure (\<lambda>source. size (JObject source))") auto

section \<open>The retry wrapper\<close>

text \<open>
  \<^verbatim>\<open>withRetries\<close> runs an operation against some state \<open>'s\<close>. What the wrapper itself
  does is recorded in a trace beside that state: \<open>Attempt i\<close> when it invokes the
  operation for the \<open>i\<close>-th time, \<open>Delay ms\<close> when it awaits \<^verbatim>\<open>setTimeout(_, ms)\<close>.
\<close>

datatype event = Attempt nat | Delay nat

definition attempts :: nat where
  "attempts = 3"

function withRetries_from ::
  "('s \<Rightarrow> (error + 'a) \<times> 's) \<Rightarrow> nat \<Rightarrow> 's \<times> event list \<Rightarrow> (error + 'a) \<times> 's \<times> event list"
where
  "withRetries_from operation i (s, tr) =
     (if i \<le> attempts then
        (case operation s of
           (Inr result, s') \<Rightarrow> (Inr result, s', tr @ [Attempt i])
         | (Inl err, s') \<Rightarrow>
             if i = attempts then (Inl err, s', tr @ [Attempt i])
             else withRetries_from operation (Suc i) (s', tr @ [Attempt i, Delay (400 * i)]))
      else (Inl Unreachable, s, tr))"
  by pat_completeness auto
termination
  by (relation "measure (\<lambda>(operation, i, w). Suc attempts - i)") auto

definition withRetries ::
  "('s \<Rightarrow> (error + 'a) \<times> 's) \<Rightarrow> 's \<times> event list \<Rightarrow> (error + 'a) \<times> 's \<times> event list"
where
  "withRetries operation w = withRetries_from operation 1 w"

text \<open>The state in which the \<open>k\<close>-th later invocation of an operation starts.\<close>

definition after_runs :: "('s \<Rightarrow> (error + 'a) \<times> 's) \<Rightarrow> nat \<Rightarrow> 's \<Rightarrow> 's" where
  "after_runs operation k s = ((\<lambda>x. snd (operation x)) ^^ k) s"

section \<open>The translation client\<close>

text \<open>
  What one HTTP request comes back with: \<open>None\<close> when the operation passed to
  \<^verbatim>\<open>withRetries\<close> throws (fetch rejected or aborted by the 30 s timer, status not ok,
  body not JSON), otherwise the content after the parsing of lines 269-279. The entries
  of \<^verbatim>\<open>parsed.translations\<close> are taken to be strings, as the cast of line 289 takes them.
  The provider is any function from the number of requests made so far and the texts
  sent to such a reply; the state of the outside world is the list of the requests made.
  The two language tags only go into the prompt and are left out.
\<close>

datatype payload =
    Unparsable                  \<comment> \<open>no object parsed, or \<^verbatim>\<open>translations\<close> is not an array\<close>
  | Translations "string list"  \<comment> \<open>\<^verbatim>\<open>parsed.translations\<close>\<close>

type_synonym provider = "nat \<Rightarrow> string list \<Rightarrow> payload option"

type_synonym world = "string list list \<times> event list"

definition request :: "provider \<Rightarrow> string list \<Rightarrow> string list list \<Rightarrow> (error + payload) \<times> string list list" where
  "request provider keys reqs =
     (case provider (length reqs) keys of
        None \<Rightarrow> (Inl HttpError, reqs @ [keys])
      | Some p \<Rightarrow> (Inr p, reqs @ [keys]))"

definition callOpenAiTranslateBatch ::
  "provider \<Rightarrow> string list \<Rightarrow> world \<Rightarrow> (error + string list) \<times> world"
where
  "callOpenAiTranslateBatch provider keys w =
     (case withRetries (request provider keys) w of
        (Inl err, w') \<Rightarrow> (Inl err, w')
      | (Inr Unparsable, w') \<Rightarrow> (Inl InvalidPayload, w')
      | (Inr (Translations ts), w') \<Rightarrow>
          if length ts \<noteq> length keys then (Inl InvalidPayload, w') else (Inr ts, w'))"


section \<open>The batch reconciler\<close>

text \<open>
  \<^verbatim>\<open>String.prototype.trim\<close> on the 8-bit characters of the model: the white space
  and line terminators below U+0080 (tab, line feed, vertical tab, form feed, carriage
  return, space).
\<close>

definition is_ws :: "char \<Rightarrow> bool" where
  "is_ws c = (c \<in> set [CHR 0x09, CHR 0x0A, CHR 0x0B, CHR 0x0C, CHR 0x0D, CHR 0x20])"

definition trim :: "string \<Rightarrow> string" where
  "trim s = rev (dropWhile is_ws (rev (dropWhile is_ws s)))"

definition BATCH_SIZE :: nat where
  "BATCH_SIZE = 20"

text \<open>
  The entries of \<^verbatim>\<open>translatedKeys\<close> are \<open>string option\<close>: \<open>None\<close> stands for
  \<^verbatim>\<open>undefined\<close>, which is what JavaScript reads from an array out of range.
  Lines 139-145: the loop that zips the bulk result onto the batch, \<open>i\<close> its counter.
\<close>

fun zip_translated :: "TranslationKey list \<Rightarrow> string list \<Rightarrow> nat \<Rightarrow> string option list" where
  "zip_translated [] translated i = []"
| "zip_translated (item # batch) translated i =
     (if length (trim (value item)) = 0 then Some [] # zip_translated batch translated i
      else (if i < length translated then Some (translated ! i) else None)
             # zip_translated batch translated (Suc i))"

text \<open>Lines 147-166: one call per item after the bulk call has failed.\<close>

fun per_item :: "provider \<Rightarrow> TranslationKey list \<Rightarrow> world \<Rightarrow> string option list \<times> world" where
  "per_item provider [] w = ([], w)"
| "per_item provider (item # batch) w =
     (if length (trim (value item)) = 0 then
        (let (translatedKeys, w') = per_item provider batch w
         in (Some [] # translatedKeys, w'))
      else
        (case callOpenAiTranslateBatch provider [value item] w of
           (Inr translated, w1) \<Rightarrow>
             (let (translatedKeys, w') = per_item provider batch w1
              in ((case translated of [] \<Rightarrow> None | t # ts \<Rightarrow> Some t) # translatedKeys, w'))
         | (Inl err, w1) \<Rightarrow>
             (let (translatedKeys, w') = per_item provider batch w1
              in (Some (value item) # translatedKeys, w'))))"

text \<open>Lines 128-172: the values of one batch.\<close>

definition resolve :: "provider \<Rightarrow> TranslationKey list \<Rightarrow> world \<Rightarrow> string option list \<times> world" where
  "resolve provider batch w =
     (let toTranslate = filter (\<lambda>item. length (trim (value item)) > 0) batch
      in if length toTranslate > 0 then
           (case callOpenAiTranslateBatch provider (map value toTranslate) w of
              (Inr translated, w') \<Rightarrow> (zip_translated batch translated 0, w')
            | (Inl err, w') \<Rightarrow> per_item provider batch w')
         else (replicate (length batch) (Some []), w))"

text \<open>
  Lines 177-187: the walk along \<^verbatim>\<open>pathParts\<close> and the final assignment, on the object
  \<open>current\<close>. An empty path makes \<^verbatim>\<open>pathParts[-1]\<close> the key \<^verbatim>\<open>undefined\<close>. An array
  passes the test \<^verbatim>\<open>typeof current[key] !== "object"\<close>, so the program walks into
  it; its properties are not part of this model, and the result is then \<open>None\<close>.
\<close>

fun set_path :: "fields \<Rightarrow> string list \<Rightarrow> json \<Rightarrow> fields option" where
  "set_path current [] v = Some (set_prop current ''undefined'' v)"
| "set_path current [k] v = Some (set_prop current k v)"
| "set_path current (k # pathParts) v =
     (if typeof (map_of current k) \<noteq> TObject \<or> map_of current k = Some JNull then
        map_option (\<lambda>sub. set_prop current k (JObject sub)) (set_path [] pathParts v)
      else
        (case map_of current k of
           Some (JObject sub) \<Rightarrow>
             map_option (\<lambda>sub'. set_prop current k (JObject sub')) (set_path sub pathParts v)
         | _ \<Rightarrow> None))"

text \<open>
  Lines 174-189: the writes of one batch. \<^verbatim>\<open>translatedKeys[i]\<close> out of range, or an
  entry that is \<^verbatim>\<open>undefined\<close>, would store \<^verbatim>\<open>undefined\<close> in the tree: \<open>None\<close> again.
\<close>

fun apply_batch ::
  "TranslationKey list \<Rightarrow> string option list \<Rightarrow> fields \<times> nat \<Rightarrow> (fields \<times> nat) option"
where
  "apply_batch [] translatedKeys (targetJson, totalApplied) = Some (targetJson, totalApplied)"
| "apply_batch (item # batch) [] (targetJson, totalApplied) = None"
| "apply_batch (item # batch) (None # translatedKeys) (targetJson, totalApplied) = None"
| "apply_batch (item # batch) (Some v # translatedKeys) (targetJson, totalApplied) =
     (case set_path targetJson (key item) (JString v) of
        None \<Rightarrow> None
      | Some targetJson' \<Rightarrow> apply_batch batch translatedKeys (targetJson', Suc totalApplied))"

text \<open>
  The loop over the batches, \<open>i\<close> the index of the first task of the batch. The progress
  lines and warnings written to the console are left out.
\<close>

function translateAndApply_from ::
  "provider \<Rightarrow> TranslationKey list \<Rightarrow> nat \<Rightarrow> fields \<times> nat \<times> world \<Rightarrow> (fields \<times> nat \<times> world) option"
where
  "translateAndApply_from provider keys i (targetJson, totalApplied, w) =
     (if i < length keys then
        (let batch = take BATCH_SIZE (drop i keys);
             (translatedKeys, w') = resolve provider batch w
         in case apply_batch batch translatedKeys (targetJson, totalApplied) of
              None \<Rightarrow> None
            | Some (targetJson', totalApplied') \<Rightarrow>
                translateAndApply_from provider keys (i + BATCH_SIZE) (targetJson', totalApplied', w'))
      else Some (targetJson, totalApplied, w))"
  by pat_completeness auto
termination
  by (relation "measure (\<lambda>(provider, keys, i, st). length keys - i)") (auto simp: BATCH_SIZE_def)

definition translateAndApply ::
  "provider \<Rightarrow> TranslationKey list \<Rightarrow> fields \<Rightarrow> world \<Rightarrow> (fields \<times> nat \<times> world) option"
where
  "translateAndApply provider keys targetJson w =
     translateAndApply_from provider keys 0 (targetJson, 0, w)"


section \<open>The orchestrator\<close>

text \<open>
  What \<^verbatim>\<open>main\<close> reads from the process and the file system. A file that cannot be
  read or parsed has no content; the content of a file that parses is typed as the
  program types it, a \<^verbatim>\<open>JsonObject\<close>.
\<close>

record locale_file =
  fileName :: string
  content :: "fields option"  \<comment> \<open>\<open>None\<close>: \<^verbatim>\<open>readFile\<close> or \<^verbatim>\<open>JSON.parse\<close> throws\<close>
  writable :: bool            \<comment> \<open>\<open>False\<close>: \<^verbatim>\<open>writeFile\<close> throws\<close>

record env =
  i18nDir :: bool             \<comment> \<open>\<open>False\<close>: \<^verbatim>\<open>findTargetFolder\<close> returns null or throws\<close>
  sourceFileName :: string    \<comment> \<open>\<^verbatim>\<open>process.argv[2] || "en.json"\<close>\<close>
  shouldTranslate :: bool     \<comment> \<open>\<^verbatim>\<open>process.argv.includes("--translate")\<close>\<close>
  apiKey :: string            \<comment> \<open>\<^verbatim>\<open>process.env.OPENAI_API_KEY ?? ""\<close>\<close>
  sourceJson :: "fields option"
  dirEntries :: "locale_file list option"  \<comment> \<open>\<^verbatim>\<open>readdir(i18nDir)\<close>; \<open>None\<close>: it throws\<close>

datatype locale_outcome =
    Skipped                  \<comment> \<open>the \<^verbatim>\<open>catch\<close> of lines 82-88: nothing written, nothing counted\<close>
  | NoChanges                \<comment> \<open>line 77: nothing written\<close>
  | Written fields nat nat   \<comment> \<open>the tree written to the file, \<^verbatim>\<open>addedCount\<close>, \<^verbatim>\<open>translatedCount\<close>\<close>

fun added_of :: "locale_outcome \<Rightarrow> nat" where
  "added_of (Written tree addedCount translatedCount) = addedCount"
| "added_of outcome = 0"

fun translated_of :: "locale_outcome \<Rightarrow> nat" where
  "translated_of (Written tree addedCount translatedCount) = translatedCount"
| "translated_of outcome = 0"

text \<open>Lines 39-88, the body of the loop over the locale files.\<close>

definition sync_locale ::
  "env \<Rightarrow> provider \<Rightarrow> fields \<Rightarrow> locale_file \<Rightarrow> world \<Rightarrow> (locale_outcome \<times> world) option"
where
  "sync_locale e provider source f w =
     (case content f of
        None \<Rightarrow> Some (Skipped, w)
      | Some targetJson0 \<Rightarrow>
          (let (targetJson, keys) = addMissingKeys source targetJson0 [] []
           in case (if shouldTranslate e \<and> length keys > 0 then
                      (if apiKey e = [] then Some (targetJson, 0, w)
                       else translateAndApply provider keys targetJson w)
                    else Some (targetJson, 0, w)) of
                None \<Rightarrow> None
              | Some (targetJson', translatedCount, w') \<Rightarrow>
                  (let addedCount = length keys
                   in if addedCount > 0 \<or> translatedCount > 0 then
                        (if writable f
                         then Some (Written targetJson' addedCount translatedCount, w')
                         else Some (Skipped, w'))
                      else Some (NoChanges, w'))))"

fun main_loop ::
  "env \<Rightarrow> provider \<Rightarrow> fields \<Rightarrow> locale_file list \<Rightarrow> nat \<times> nat \<times> locale_outcome list \<times> world
    \<Rightarrow> (nat \<times> nat \<times> locale_outcome list \<times> world) option"
where
  "main_loop e provider source [] st = Some st"
| "main_loop e provider source (f # localeFiles) (totalAdded, totalTranslated, outcomes, w) =
     (case sync_locale e provider source f w of
        None \<Rightarrow> None
      | Some (outcome, w') \<Rightarrow>
          main_loop e provider source localeFiles
            (totalAdded + added_of outcome, totalTranslated + translated_of outcome,
             outcomes @ [outcome], w'))"

text \<open>
  How a run ends: \<open>Crashed\<close> when \<^verbatim>\<open>main\<close> throws (the handler of lines 364-367 then
  exits with 1), \<open>Exited\<close> at \<^verbatim>\<open>process.exit\<close> of lines 93 and 98, with the two totals
  and the outcome of every locale file.
\<close>

datatype run = Crashed error | Exited nat nat nat "locale_outcome list"

definition main :: "env \<Rightarrow> provider \<Rightarrow> world \<Rightarrow> (run \<times> world) option" where
  "main e provider w =
     (if \<not> i18nDir e then Some (Crashed NoI18nDir, w)
      else case sourceJson e of
        None \<Rightarrow> Some (Crashed IoFailure, w)
      | Some source \<Rightarrow>
          (case dirEntries e of
             None \<Rightarrow> Some (Crashed IoFailure, w)
           | Some entries \<Rightarrow>
               (let localeFileNames =
                      filter (\<lambda>f. suffix ''.json'' (fileName f) \<and> fileName f \<noteq> sourceFileName e) entries
                in case main_loop e provider source localeFileNames (0, 0, [], w) of
                     None \<Rightarrow> None
                   | Some (totalAdded, totalTranslated, outcomes, w') \<Rightarrow>
                       if totalAdded = 0 then Some (Exited 2 totalAdded totalTranslated outcomes, w')
                       else Some (Exited 0 totalAdded totalTranslated outcomes, w'))))"

fun exit_code :: "run \<Rightarrow> nat" where
  "exit_code (Crashed err) = 1"
| "exit_code (Exited code totalAdded totalTranslated outcomes) = code"

fun outcomes_of :: "run \<Rightarrow> locale_outcome list" where
  "outcomes_of (Crashed err) = []"
| "outcomes_of (Exited code totalAdded totalTranslated outcomes) = outcomes"

text \<open>
  The call of line 46, \<^verbatim>\<open>addMissingKeys(sourceJson, targetJson, [], keys)\<close> with
  \<open>keys\<close> empty: the updated target and the tasks found.
\<close>

definition diff :: "fields \<Rightarrow> fields \<Rightarrow> fields \<times> TranslationKey list" where
  "diff source target = addMissingKeys source target [] []"

text \<open>A task with its path put under a prefix.\<close>

definition rebase :: "string list \<Rightarrow> TranslationKey \<Rightarrow> TranslationKey" where
  "rebase p x = x\<lparr>key := p @ key x\<rparr>"

text \<open>
  Two predicates for the proofs. The paths of a task list are separate when none is
  empty, none occurs twice and none is a prefix of another; a tree has objects along the
  paths when it holds an object at every proper prefix of every path.
\<close>

definition separate_paths :: "TranslationKey list \<Rightarrow> bool" where
  "separate_paths ks \<longleftrightarrow>
     (\<forall>x \<in> set ks. key x \<noteq> []) \<and> distinct (map key ks)
     \<and> (\<forall>x \<in> set ks. \<forall>y \<in> set ks. key x \<noteq> key y \<longrightarrow> key x \<parallel> key y)"

definition objects_along :: "fields \<Rightarrow> TranslationKey list \<Rightarrow> bool" where
  "objects_along t ks \<longleftrightarrow>
     (\<forall>x \<in> set ks. \<forall>r. strict_prefix r (key x) \<and> r \<noteq> []
        \<longrightarrow> (\<exists>fs. lookup_path t r = Some (JObject fs)))"

section \<open>Example inputs\<close>

text \<open>An operation that fails once and then succeeds; its state counts the invocations.\<close>

definition flaky :: "nat \<Rightarrow> (error + string) \<times> nat" where
  "flaky n = (if n < 1 then Inl HttpError else Inr ''ok'', Suc n)"


definition provider_down :: provider where
  "provider_down n texts = None"

text \<open>The source catalog of the spec's examples, and the target of its second example.\<close>

definition example_source :: fields where
  "example_source =
     [(''a'', JObject [(''b'', JString ''Hello'')]), (''c'', JString ''World''), (''d'', JNumber 5)]"







definition small_source :: fields where
  "small_source = [(''c'', JString ''World'')]"

definition example_locale :: locale_file where
  "example_locale = \<lparr>fileName = ''fr.json'', content = Some [], writable = True\<rparr>"

definition example_env :: env where
  "example_env =
     \<lparr>i18nDir = True, sourceFileName = ''en.json'', shouldTranslate = True,
      apiKey = ''sk-test'', sourceJson = Some small_source,
      dirEntries = Some [example_locale]\<rparr>"






section \<open>Properties of the retry wrapper\<close>

lemma withRetries_from_3:
  "withRetries_from operation 3 (s, tr) =
     (fst (operation s), snd (operation s), tr @ [Attempt 3])"
  by (simp add: attempts_def split: prod.splits sum.splits)


lemma withRetries_from_2:
  "withRetries_from operation 2 (s, tr) =
     (case operation s of
        (Inr result, s') \<Rightarrow> (Inr result, s', tr @ [Attempt 2])
      | (Inl err, s') \<Rightarrow>
          (fst (operation s'), snd (operation s'), tr @ [Attempt 2, Delay 800, Attempt 3]))"
proof -
  have "Suc 2 = 3" by simp
  then show ?thesis
    using withRetries_from_3 [of operation]
    by (simp add: attempts_def split: prod.splits sum.splits)
qed

lemma withRetries_unroll:
  "withRetries operation (s, tr) =
     (case operation s of
        (Inr result, s1) \<Rightarrow> (Inr result, s1, tr @ [Attempt 1])
      | (Inl err, s1) \<Rightarrow>
          (case operation s1 of
             (Inr result, s2) \<Rightarrow> (Inr result, s2, tr @ [Attempt 1, Delay 400, Attempt 2])
           | (Inl err, s2) \<Rightarrow>
               (fst (operation s2), snd (operation s2),
                tr @ [Attempt 1, Delay 400, Attempt 2, Delay 800, Attempt 3])))"
proof -
  have "Suc (Suc 0) = 2" by simp
  then show ?thesis
    using withRetries_from_2 [of operation]
    by (simp add: withRetries_def attempts_def split: prod.splits sum.splits)
qed

text \<open>
  C8. A call of \<open>withRetries\<close> stops at some attempt \<open>n\<close> between 1 and 3. Its trace is
  the first \<open>2n - 1\<close> entries of: attempt 1, wait 400 ms, attempt 2, wait 800 ms,
  attempt 3; so the operation is invoked \<open>n\<close> times, at most 3, and the wait after
  attempt \<open>i\<close> is \<open>400 * i\<close> ms. The result is the outcome of attempt \<open>n\<close>: every earlier
  attempt failed, and the call stops before the third attempt only on a success, so a
  first success is returned with no further invocation and the failure of the third
  attempt is the one raised.
\<close>

theorem withRetries_contract:
  assumes "withRetries operation (s, tr) = (res, s', tr')"
  shows "\<exists>n. 1 \<le> n \<and> n \<le> 3
           \<and> tr' = tr @ take (2 * n - 1)
                     [Attempt 1, Delay (400 * 1), Attempt 2, Delay (400 * 2), Attempt 3]
           \<and> s' = after_runs operation n s
           \<and> res = fst (operation (after_runs operation (n - 1) s))
           \<and> (\<forall>k < n - 1. isl (fst (operation (after_runs operation k s))))
           \<and> (n < 3 \<longrightarrow> \<not> isl res)"
proof -
  obtain r1 s1 where o1: "operation s = (r1, s1)" by (cases "operation s")
  obtain r2 s2 where o2: "operation s1 = (r2, s2)" by (cases "operation s1")
  obtain r3 s3 where o3: "operation s2 = (r3, s3)" by (cases "operation s2")
  have a0: "after_runs operation 0 s = s"
    by (simp add: after_runs_def)
  have a1: "after_runs operation (Suc 0) s = s1"
    by (simp add: after_runs_def o1)
  have a2: "after_runs operation 2 s = s2"
    by (simp add: after_runs_def numeral_2_eq_2 o1 o2)
  have a3: "after_runs operation 3 s = s3"
    by (simp add: after_runs_def numeral_3_eq_3 o1 o2 o3)
  show ?thesis
  proof (cases r1)
    case (Inr x)
    with assms o1 have "res = Inr x" "s' = s1" "tr' = tr @ [Attempt 1]"
      by (simp_all add: withRetries_unroll)
    then show ?thesis
      using a0 a1 o1 Inr by (intro exI [of _ 1]) simp
  next
    case e1: (Inl e)
    show ?thesis
    proof (cases r2)
      case (Inr x)
      with assms o1 o2 e1 have "res = Inr x" "s' = s2"
        "tr' = tr @ [Attempt 1, Delay 400, Attempt 2]"
        by (simp_all add: withRetries_unroll)
      then show ?thesis
        using a0 a1 a2 o1 o2 e1 Inr by (intro exI [of _ 2]) simp
    next
      case e2: (Inl e')
      with assms o1 o2 o3 e1 have "res = r3" "s' = s3"
        "tr' = tr @ [Attempt 1, Delay 400, Attempt 2, Delay 800, Attempt 3]"
        by (simp_all add: withRetries_unroll)
      moreover have "\<forall>k < (2::nat). isl (fst (operation (after_runs operation k s)))"
      proof (intro allI impI)
        fix k :: nat assume "k < 2"
        then have "k = 0 \<or> k = 1" by arith
        then show "isl (fst (operation (after_runs operation k s)))"
          using a0 a1 o1 o2 e1 e2 by auto
      qed
      ultimately show ?thesis
        using a2 a3 o3 by (intro exI [of _ 3]) simp
    qed
  qed
qed

theorem withRetries_contract_witness:
  "withRetries flaky (0, []) = (Inr ''ok'', 2, [Attempt 1, Delay 400, Attempt 2])
   \<and> (\<exists>n. 1 \<le> n \<and> n \<le> 3
        \<and> [Attempt 1, Delay 400, Attempt 2] = [] @ take (2 * n - 1)
              [Attempt 1, Delay (400 * 1), Attempt 2, Delay (400 * 2), Attempt 3]
        \<and> 2 = after_runs flaky n 0
        \<and> Inr ''ok'' = fst (flaky (after_runs flaky (n - 1) 0))
        \<and> (\<forall>k < n - 1. isl (fst (flaky (after_runs flaky k 0))))
        \<and> (n < 3 \<longrightarrow> \<not> isl (Inr ''ok'' :: error + string)))"
proof -
  have run: "withRetries flaky (0, []) = (Inr ''ok'', 2, [Attempt 1, Delay 400, Attempt 2])"
    by (simp add: withRetries_unroll flaky_def)
  show ?thesis
    using run withRetries_contract [OF run] by blast
qed

section \<open>Properties of the translation client\<close>

lemma callOpenAiTranslateBatch_unroll:
  "callOpenAiTranslateBatch provider keys (reqs, tr) =
     (let finish = (\<lambda>p. case p of
                      Unparsable \<Rightarrow> Inl InvalidPayload
                    | Translations ts \<Rightarrow>
                        if length ts = length keys then Inr ts else Inl InvalidPayload)
      in case provider (length reqs) keys of
        Some p \<Rightarrow> (finish p, reqs @ [keys], tr @ [Attempt 1])
      | None \<Rightarrow>
         (case provider (Suc (length reqs)) keys of
            Some p \<Rightarrow> (finish p, reqs @ [keys, keys], tr @ [Attempt 1, Delay 400, Attempt 2])
          | None \<Rightarrow>
             (case provider (Suc (Suc (length reqs))) keys of
                Some p \<Rightarrow> (finish p, reqs @ [keys, keys, keys],
                           tr @ [Attempt 1, Delay 400, Attempt 2, Delay 800, Attempt 3])
              | None \<Rightarrow> (Inl HttpError, reqs @ [keys, keys, keys],
                           tr @ [Attempt 1, Delay 400, Attempt 2, Delay 800, Attempt 3]))))"
  by (simp add: callOpenAiTranslateBatch_def withRetries_unroll request_def
      split: option.splits payload.splits)




section \<open>Properties of the tree differ\<close>

lemma isTypeObject_iff: "isTypeObject v \<longleftrightarrow> (\<exists>fs. v = Some (JObject fs))"
  by (cases v rule: typeof.cases) (auto simp: isTypeObject_def)

lemma map_of_set_prop: "map_of (set_prop t k v) = (map_of t)(k \<mapsto> v)"
  by (induction t) (auto simp: fun_eq_iff)

lemma set_prop_twice: "set_prop (set_prop t k a) k b = set_prop t k b"
  by (induction t) auto

lemma fields_induct [case_names Nil Obj Str Other]:
  assumes "P []"
    and "\<And>k src rest. P src \<Longrightarrow> P rest \<Longrightarrow> P ((k, JObject src) # rest)"
    and "\<And>k s rest. P rest \<Longrightarrow> P ((k, JString s) # rest)"
    and "\<And>k v rest. (\<forall>fs. v \<noteq> JObject fs) \<Longrightarrow> (\<forall>s. v \<noteq> JString s) \<Longrightarrow> P rest
           \<Longrightarrow> P ((k, v) # rest)"
  shows "P source"
proof (induction source rule: wf_fields.induct)
  case 1
  show ?case by (rule assms(1))
next
  case (2 k v rest)
  show ?case
  proof (cases v)
    case (JObject src)
    with 2 show ?thesis by (auto intro: assms(2))
  next
    case (JString s)
    with 2 show ?thesis by (auto intro: assms(3))
  qed (use 2 in \<open>auto intro: assms(4)\<close>)
qed

lemma addMissingKeys_obj:
  "addMissingKeys ((k, JObject src) # rest) target keyPath keys =
     (case addMissingKeys src (case map_of target k of Some (JObject t) \<Rightarrow> t | _ \<Rightarrow> [])
             (keyPath @ [k]) keys of
        (sub', keys') \<Rightarrow> addMissingKeys rest (set_prop target k (JObject sub')) keyPath keys')"
  by (auto simp: Let_def isTypeObject_iff map_of_set_prop set_prop_twice
           split: option.splits json.splits prod.splits)

lemma addMissingKeys_str:
  "addMissingKeys ((k, JString s) # rest) target keyPath keys =
     (if (\<exists>t. map_of target k = Some (JString t) \<and> t \<noteq> []) then
        addMissingKeys rest target keyPath keys
      else addMissingKeys rest (set_prop target k (JString []))
             keyPath (keys @ [\<lparr>key = keyPath @ [k], value = s\<rparr>]))"
  by (cases "map_of target k" rule: typeof.cases) (auto simp: Let_def)

lemma addMissingKeys_other:
  "(\<forall>fs. v \<noteq> JObject fs) \<Longrightarrow> (\<forall>s. v \<noteq> JString s) \<Longrightarrow>
   addMissingKeys ((k, v) # rest) target keyPath keys = addMissingKeys rest target keyPath keys"
  by (cases v) auto

declare addMissingKeys.simps(2-3) [simp del]

lemma rebase_simps [simp]:
  "key (rebase p x) = p @ key x" "value (rebase p x) = value x"
  "rebase p (rebase q x) = rebase (p @ q) x" "rebase [] x = x"
  by (simp_all add: rebase_def)

lemma map_rebase_Nil [simp]: "map (rebase []) xs = xs"
  by (induction xs) simp_all

lemma addMissingKeys_acc:
  "addMissingKeys source target keyPath keys =
     (fst (addMissingKeys source target [] []),
      keys @ map (rebase keyPath) (snd (addMissingKeys source target [] [])))"
proof (induction source arbitrary: target keyPath keys rule: fields_induct)
  case Nil
  show ?case by simp
next
  case (Obj k src rest)
  define sub where "sub = (case map_of target k of Some (JObject t) \<Rightarrow> t | _ \<Rightarrow> [])"
  define S where "S = fst (addMissingKeys src sub [] [])"
  define K1 where "K1 = snd (addMissingKeys src sub [] [])"
  define T where "T = fst (addMissingKeys rest (set_prop target k (JObject S)) [] [])"
  define K2 where "K2 = snd (addMissingKeys rest (set_prop target k (JObject S)) [] [])"
  have A: "addMissingKeys src sub p ks = (S, ks @ map (rebase p) K1)" for p ks
    unfolding S_def K1_def by (rule Obj.IH(1))
  have B: "addMissingKeys rest (set_prop target k (JObject S)) p ks = (T, ks @ map (rebase p) K2)"
    for p ks
    unfolding T_def K2_def by (rule Obj.IH(2))
  have step: "addMissingKeys ((k, JObject src) # rest) target p ks
                = (T, ks @ map (rebase (p @ [k])) K1 @ map (rebase p) K2)" for p ks
    by (simp only: addMissingKeys_obj sub_def [symmetric] A) (simp add: B)
  show ?case
    by (simp add: step comp_def)
next
  case (Str k s rest)
  show ?case
  proof (cases "\<exists>t. map_of target k = Some (JString t) \<and> t \<noteq> []")
    case True
    then have "addMissingKeys ((k, JString s) # rest) target p ks
                 = addMissingKeys rest target p ks" for p ks
      by (simp only: addMissingKeys_str if_True)
    then show ?thesis
      by (simp only:) (rule Str.IH)
  next
    case False
    define T where "T = fst (addMissingKeys rest (set_prop target k (JString [])) [] [])"
    define K2 where "K2 = snd (addMissingKeys rest (set_prop target k (JString [])) [] [])"
    have B: "addMissingKeys rest (set_prop target k (JString [])) p ks
               = (T, ks @ map (rebase p) K2)" for p ks
      unfolding T_def K2_def by (rule Str.IH)
    from False have step: "addMissingKeys ((k, JString s) # rest) target p ks
                 = (T, ks @ \<lparr>key = p @ [k], value = s\<rparr> # map (rebase p) K2)" for p ks
      by (simp only: addMissingKeys_str if_False B) simp
    show ?thesis
      by (simp add: step rebase_def)
  qed
next
  case (Other k v rest)
  from Other(1,2) have eq: "addMissingKeys ((k, v) # rest) t p ks = addMissingKeys rest t p ks"
    for t p ks
    by (simp add: addMissingKeys_other)
  show ?case
    by (simp only: eq) (rule Other.IH)
qed


lemma diff_Nil [simp]: "diff [] t = (t, [])"
  by (simp add: diff_def)

lemma diff_obj:
  "diff ((k, JObject src) # rest) t =
     (let sub = (case map_of t k of Some (JObject s) \<Rightarrow> s | _ \<Rightarrow> []);
          S = fst (diff src sub);
          r = diff rest (set_prop t k (JObject S))
      in (fst r, map (rebase [k]) (snd (diff src sub)) @ snd r))"
proof -
  define sub where "sub = (case map_of t k of Some (JObject s) \<Rightarrow> s | _ \<Rightarrow> [])"
  have A: "addMissingKeys src sub [k] [] = (fst (diff src sub), map (rebase [k]) (snd (diff src sub)))"
    by (subst addMissingKeys_acc) (simp add: diff_def)
  have B: "addMissingKeys rest u [] ks = (fst (diff rest u), ks @ snd (diff rest u))" for u ks
    by (subst addMissingKeys_acc) (simp add: diff_def)
  show ?thesis
    unfolding diff_def [of "(k, JObject src) # rest"] addMissingKeys_obj sub_def [symmetric]
    by (simp add: A B Let_def)
qed

lemma diff_str:
  "diff ((k, JString s) # rest) t =
     (if (\<exists>x. map_of t k = Some (JString x) \<and> x \<noteq> []) then diff rest t
      else (let r = diff rest (set_prop t k (JString []))
            in (fst r, \<lparr>key = [k], value = s\<rparr> # snd r)))"
proof -
  have B: "addMissingKeys rest u [] ks = (fst (diff rest u), ks @ snd (diff rest u))" for u ks
    by (subst addMissingKeys_acc) (simp add: diff_def)
  show ?thesis
    unfolding diff_def [of "(k, JString s) # rest"] addMissingKeys_str
    by (cases "\<exists>x. map_of t k = Some (JString x) \<and> x \<noteq> []")
       (simp_all only: if_True if_False B Let_def fst_conv snd_conv append_Nil, simp_all add: diff_def)
qed

lemma diff_other:
  "(\<forall>fs. v \<noteq> JObject fs) \<Longrightarrow> (\<forall>s. v \<noteq> JString s) \<Longrightarrow> diff ((k, v) # rest) t = diff rest t"
  by (simp add: diff_def addMissingKeys_other)

lemma lookup_path_Cons:
  "lookup_path fs (k # q) =
     (if q = [] then map_of fs k
      else (case map_of fs k of Some (JObject sub) \<Rightarrow> lookup_path sub q | _ \<Rightarrow> None))"
  by (cases q) auto

lemma lookup_path_Nil_fields: "q \<noteq> [] \<Longrightarrow> lookup_path [] q = None"
  by (cases q) (auto simp: lookup_path_Cons)

lemma lookup_path_hd:
  "lookup_path fs (k # q) = Some v \<Longrightarrow> k \<in> fst ` set fs"
  by (auto simp: lookup_path_Cons weak_map_of_SomeI image_iff dest!: map_of_SomeD
           split: if_splits option.splits json.splits) force+

lemma diff_untouched_key:
  "k \<notin> fst ` set src \<Longrightarrow> map_of (fst (diff src t)) k = map_of t k"
proof (induction src arbitrary: t rule: fields_induct)
  case Nil
  show ?case by simp
next
  case (Obj k' src rest)
  then show ?case by (simp add: diff_obj Let_def map_of_set_prop)
next
  case (Str k' s rest)
  then show ?case by (simp add: diff_str Let_def map_of_set_prop)
next
  case (Other k' v rest)
  then show ?case by (simp add: diff_other)
qed

lemma diff_key_hd:
  "x \<in> set (snd (diff src t)) \<Longrightarrow> \<exists>k q. key x = k # q \<and> k \<in> fst ` set src"
proof (induction src arbitrary: t rule: fields_induct)
  case Nil
  then show ?case by simp
next
  case (Obj k' src rest)
  then show ?case by (fastforce simp: diff_obj Let_def)
next
  case (Str k' s rest)
  then show ?case by (fastforce simp: diff_str Let_def split: if_splits)
next
  case (Other k' v rest)
  then show ?case by (fastforce simp: diff_other)
qed

lemma in_rebase_image:
  "x \<in> rebase p ` S \<longleftrightarrow> (\<exists>q. key x = p @ q \<and> x\<lparr>key := q\<rparr> \<in> S)"
proof
  assume "x \<in> rebase p ` S"
  then obtain y where "y \<in> S" "x = rebase p y" by auto
  then show "\<exists>q. key x = p @ q \<and> x\<lparr>key := q\<rparr> \<in> S"
    by (intro exI [of _ "key y"]) (simp add: rebase_def)
next
  assume "\<exists>q. key x = p @ q \<and> x\<lparr>key := q\<rparr> \<in> S"
  then obtain q where q: "key x = p @ q" "x\<lparr>key := q\<rparr> \<in> S" by auto
  have "rebase p (x\<lparr>key := q\<rparr>) = x" using q(1) by (simp add: rebase_def)
  with q(2) show "x \<in> rebase p ` S" by (metis imageI)
qed

lemma lookup_path_set_prop_other:
  "k' \<noteq> k \<Longrightarrow> lookup_path (set_prop t k v) (k' # q) = lookup_path t (k' # q)"
  by (simp add: lookup_path_Cons map_of_set_prop)

lemma lookup_path_set_prop_same:
  "lookup_path (set_prop t k v) (k # q) =
     (if q = [] then Some v else (case v of JObject sub \<Rightarrow> lookup_path sub q | _ \<Rightarrow> None))"
  by (simp add: lookup_path_Cons map_of_set_prop)

lemma lookup_path_obj_fields:
  "q \<noteq> [] \<Longrightarrow>
   lookup_path t (k # q) = lookup_path (case map_of t k of Some (JObject s) \<Rightarrow> s | _ \<Rightarrow> []) q"
  by (auto simp: lookup_path_Cons lookup_path_Nil_fields split: option.splits json.splits)

lemma lookup_path_Cons_fields:
  "lookup_path ((k, v) # rest) (k' # q) =
     (if k' = k then
        (if q = [] then Some v
         else (case v of JObject sub \<Rightarrow> lookup_path sub q | _ \<Rightarrow> None))
      else lookup_path rest (k' # q))"
  by (simp add: lookup_path_Cons)

lemma missing_in_set_prop_other:
  "k' \<noteq> k \<Longrightarrow> missing_in (set_prop t k v) (k' # q) = missing_in t (k' # q)"
  by (simp add: missing_in_def lookup_path_set_prop_other)

lemma missing_in_obj_fields:
  "q \<noteq> [] \<Longrightarrow>
   missing_in t (k # q) = missing_in (case map_of t k of Some (JObject s) \<Rightarrow> s | _ \<Rightarrow> []) q"
  by (simp add: missing_in_def lookup_path_obj_fields)

lemma missing_in_single:
  "missing_in t [k] \<longleftrightarrow> \<not> (\<exists>y. map_of t k = Some (JString y) \<and> y \<noteq> [])"
  by (auto simp: missing_in_def split: option.splits json.splits)

lemma diff_task_iff:
  "wf_fields src \<Longrightarrow>
   x \<in> set (snd (diff src t)) \<longleftrightarrow>
     lookup_path src (key x) = Some (JString (value x)) \<and> missing_in t (key x)"
proof (induction src arbitrary: t x rule: fields_induct)
  case Nil
  show ?case by (cases "key x") (simp_all add: lookup_path_Nil_fields)
next
  case (Obj k src rest)
  define sub where "sub = (case map_of t k of Some (JObject s) \<Rightarrow> s | _ \<Rightarrow> [])"
  define S where "S = fst (diff src sub)"
  from Obj.prems have wf: "k \<notin> fst ` set rest" "wf_fields src" "wf_fields rest" by simp_all
  have mem: "x \<in> set (snd (diff ((k, JObject src) # rest) t)) \<longleftrightarrow>
               x \<in> rebase [k] ` set (snd (diff src sub))
               \<or> x \<in> set (snd (diff rest (set_prop t k (JObject S))))"
    by (simp add: diff_obj Let_def sub_def S_def)
  have A: "y \<in> set (snd (diff src sub)) \<longleftrightarrow>
             lookup_path src (key y) = Some (JString (value y)) \<and> missing_in sub (key y)" for y
    by (rule Obj.IH(1) [OF wf(2)])
  have B: "x \<in> set (snd (diff rest (set_prop t k (JObject S)))) \<longleftrightarrow>
             lookup_path rest (key x) = Some (JString (value x))
             \<and> missing_in (set_prop t k (JObject S)) (key x)"
    by (rule Obj.IH(2) [OF wf(3)])
  show ?case
  proof (cases "key x")
    case Nil
    then show ?thesis by (simp add: mem A B in_rebase_image)
  next
    case (Cons k' q)
    show ?thesis
    proof (cases "k' = k")
      case True
      have "lookup_path rest (k # q) \<noteq> Some (JString (value x))"
        using wf(1) lookup_path_hd by blast
      moreover have "q \<noteq> [] \<Longrightarrow> missing_in t (k # q) = missing_in sub q"
        unfolding sub_def by (rule missing_in_obj_fields)
      ultimately show ?thesis
        using Cons True by (auto simp: mem A B in_rebase_image lookup_path_Cons_fields)
    next
      case False
      then show ?thesis
        using Cons by (simp add: mem A B in_rebase_image lookup_path_Cons_fields missing_in_set_prop_other)
    qed
  qed
next
  case (Str k s rest)
  from Str.prems have wf: "k \<notin> fst ` set rest" "wf_fields rest" by simp_all
  have B: "x \<in> set (snd (diff rest u)) \<longleftrightarrow>
             lookup_path rest (key x) = Some (JString (value x)) \<and> missing_in u (key x)" for u
    by (rule Str.IH [OF wf(2)])
  have nohd: "lookup_path rest (k # q) \<noteq> Some v" for q v
    using wf(1) lookup_path_hd by blast
  show ?case
  proof (cases "key x")
    case Nil
    then have "x \<noteq> \<lparr>key = [k], value = s\<rparr>" by auto
    with Nil show ?thesis by (simp add: diff_str Let_def B)
  next
    case (Cons k' q)
    show ?thesis
    proof (cases "k' = k")
      case True
      have eq: "x = \<lparr>key = [k], value = s\<rparr> \<longleftrightarrow> q = [] \<and> value x = s"
        using Cons True by (cases x) auto
      have notin: "x \<notin> set (snd (diff rest u))" for u
        using Cons True nohd by (simp add: B)
      have lhs: "x \<in> set (snd (diff ((k, JString s) # rest) t)) \<longleftrightarrow>
                   missing_in t [k] \<and> q = [] \<and> value x = s"
        using notin eq by (auto simp: diff_str Let_def missing_in_single)
      have rhs: "lookup_path ((k, JString s) # rest) (key x) = Some (JString (value x)) \<longleftrightarrow>
                   q = [] \<and> value x = s"
        using Cons True by (auto simp: lookup_path_Cons_fields)
      show ?thesis
        unfolding lhs rhs using Cons True by auto
    next
      case False
      then show ?thesis
        using Cons
        by (auto simp: diff_str Let_def B lookup_path_Cons_fields missing_in_set_prop_other)
    qed
  qed
next
  case (Other k v rest)
  from Other.prems have wf: "k \<notin> fst ` set rest" "wf_fields rest"
    by (simp_all split: json.splits)
  have B: "x \<in> set (snd (diff rest t)) \<longleftrightarrow>
             lookup_path rest (key x) = Some (JString (value x)) \<and> missing_in t (key x)"
    by (rule Other.IH [OF wf(2)])
  have nohd: "lookup_path rest (k # q) \<noteq> Some v" for q v
    using wf(1) lookup_path_hd by blast
  show ?case
  proof (cases "key x")
    case Nil
    then show ?thesis using Other(1,2) by (simp add: diff_other B)
  next
    case (Cons k' q)
    then show ?thesis
      using Other(1,2) nohd
      by (cases v) (auto simp: diff_other B lookup_path_Cons_fields)
  qed
qed


lemma diff_placeholder:
  "wf_fields src \<Longrightarrow> x \<in> set (snd (diff src t)) \<Longrightarrow>
   lookup_path (fst (diff src t)) (key x) = Some (JString [])"
proof (induction src arbitrary: t x rule: fields_induct)
  case Nil
  then show ?case by simp
next
  case (Obj k src rest)
  define sub where "sub = (case map_of t k of Some (JObject s) \<Rightarrow> s | _ \<Rightarrow> [])"
  define S where "S = fst (diff src sub)"
  define T where "T = fst (diff rest (set_prop t k (JObject S)))"
  from Obj.prems(1) have wf: "k \<notin> fst ` set rest" "wf_fields src" "wf_fields rest" by simp_all
  have fst_eq: "fst (diff ((k, JObject src) # rest) t) = T"
    by (simp add: diff_obj Let_def sub_def S_def T_def)
  have at_k: "map_of T k = Some (JObject S)"
    unfolding T_def using wf(1) by (simp add: diff_untouched_key map_of_set_prop)
  from Obj.prems(2) consider
      (inner) y where "y \<in> set (snd (diff src sub))" "x = rebase [k] y"
    | (later) "x \<in> set (snd (diff rest (set_prop t k (JObject S))))"
    by (auto simp: diff_obj Let_def sub_def S_def)
  then show ?case
  proof cases
    case inner
    from inner(1) have ne: "key y \<noteq> []" using diff_key_hd by fastforce
    have "lookup_path S (key y) = Some (JString [])"
      unfolding S_def by (rule Obj.IH(1) [OF wf(2) inner(1)])
    then show ?thesis
      using ne inner(2) at_k by (simp add: fst_eq lookup_path_obj_fields)
  next
    case later
    show ?thesis
      unfolding fst_eq T_def by (rule Obj.IH(2) [OF wf(3) later])
  qed
next
  case (Str k s rest)
  from Str.prems(1) have wf: "k \<notin> fst ` set rest" "wf_fields rest" by simp_all
  show ?case
  proof (cases "\<exists>y. map_of t k = Some (JString y) \<and> y \<noteq> []")
    case True
    then have eq: "diff ((k, JString s) # rest) t = diff rest t"
      by (simp only: diff_str if_True)
    show ?thesis
      using Str.IH [OF wf(2), of x t] Str.prems(2) by (simp only: eq)
  next
    case False
    define T where "T = fst (diff rest (set_prop t k (JString [])))"
    from False have eq: "diff ((k, JString s) # rest) t
        = (T, \<lparr>key = [k], value = s\<rparr> # snd (diff rest (set_prop t k (JString []))))"
      by (simp only: diff_str if_False Let_def T_def)
    have at_k: "map_of T k = Some (JString [])"
      unfolding T_def using wf(1) by (simp add: diff_untouched_key map_of_set_prop)
    from Str.prems(2) consider
        (here) "x = \<lparr>key = [k], value = s\<rparr>"
      | (later) "x \<in> set (snd (diff rest (set_prop t k (JString []))))"
      by (auto simp: eq)
    then show ?thesis
    proof cases
      case here
      then show ?thesis using at_k by (simp add: eq)
    next
      case later
      show ?thesis
        unfolding eq fst_conv T_def by (rule Str.IH [OF wf(2) later])
    qed
  qed
next
  case (Other k v rest)
  from Other.prems(1) have wf: "wf_fields rest" by (simp split: json.splits)
  have eq: "diff ((k, v) # rest) t = diff rest t"
    using Other(1,2) by (simp add: diff_other)
  show ?case
    using Other.IH [OF wf, of x t] Other.prems(2) by (simp only: eq)
qed



lemma wf_example_source: "wf_fields example_source"
  by (simp add: example_source_def)






section \<open>Properties of the writes into the tree\<close>

lemma set_path_single: "set_path t [k] v = Some (set_prop t k v)"
  by simp

lemma set_path_Cons:
  "q \<noteq> [] \<Longrightarrow>
   set_path t (k # q) v =
     (if isArray (map_of t k) then None
      else map_option (\<lambda>s. set_prop t k (JObject s))
             (set_path (case map_of t k of Some (JObject s) \<Rightarrow> s | _ \<Rightarrow> []) q v))"
  by (cases q; cases "map_of t k" rule: typeof.cases) auto

lemma set_path_lookup:
  "p \<noteq> [] \<Longrightarrow> set_path t p v = Some t' \<Longrightarrow> lookup_path t' p = Some v"
proof (induction p arbitrary: t t')
  case Nil
  then show ?case by simp
next
  case (Cons k q)
  show ?case
  proof (cases "q = []")
    case True
    with Cons.prems show ?thesis by (auto simp: map_of_set_prop)
  next
    case False
    with Cons.prems obtain s where
      s: "set_path (case map_of t k of Some (JObject s) \<Rightarrow> s | _ \<Rightarrow> []) q v = Some s"
         "t' = set_prop t k (JObject s)"
      by (auto simp: set_path_Cons split: if_splits)
    from Cons.IH [OF False s(1)] show ?thesis
      using False by (simp add: s(2) lookup_path_set_prop_same)
  qed
qed

lemma set_path_parallel:
  "p \<parallel> q \<Longrightarrow> set_path t q v = Some t' \<Longrightarrow> lookup_path t' p = lookup_path t p"
proof (induction q arbitrary: t t' p)
  case Nil
  then show ?case by simp
next
  case (Cons k q)
  from Cons.prems(1) obtain k' p' where p: "p = k' # p'"
    by (cases p) auto
  show ?case
  proof (cases "k' = k")
    case False
    have "\<exists>x. t' = set_prop t k x"
      using Cons.prems(2) by (cases "q = []") (auto simp: set_path_Cons split: if_splits)
    then show ?thesis
      unfolding p using False by (auto simp: lookup_path_set_prop_other)
  next
    case True
    with Cons.prems(1) have par: "p' \<parallel> q"
      unfolding p by (auto dest: parallel_cancel)
    then have ne: "q \<noteq> []" "p' \<noteq> []" by auto
    with Cons.prems(2) obtain s where
      s: "set_path (case map_of t k of Some (JObject s) \<Rightarrow> s | _ \<Rightarrow> []) q v = Some s"
         "t' = set_prop t k (JObject s)"
      by (auto simp: set_path_Cons split: if_splits)
    from Cons.IH [OF par s(1)] show ?thesis
      unfolding p True s(2) using ne(2)
      by (simp add: lookup_path_set_prop_same lookup_path_obj_fields)
  qed
qed

lemma set_path_prefix_object:
  "set_path t q v = Some t' \<Longrightarrow> strict_prefix r q \<Longrightarrow> r \<noteq> [] \<Longrightarrow>
   \<exists>fs. lookup_path t' r = Some (JObject fs)"
proof (induction q arbitrary: t t' r)
  case Nil
  then show ?case by simp
next
  case (Cons k q)
  from Cons.prems(2,3) obtain r' where r: "r = k # r'" "strict_prefix r' q"
    by (cases r) auto
  then have ne: "q \<noteq> []" by auto
  with Cons.prems(1) obtain s where
    s: "set_path (case map_of t k of Some (JObject s) \<Rightarrow> s | _ \<Rightarrow> []) q v = Some s"
       "t' = set_prop t k (JObject s)"
    by (auto simp: set_path_Cons split: if_splits)
  show ?case
  proof (cases "r' = []")
    case True
    then show ?thesis by (simp add: r(1) s(2) map_of_set_prop)
  next
    case False
    from Cons.IH [OF s(1) r(2) False] show ?thesis
      using False by (simp add: r(1) s(2) lookup_path_set_prop_same)
  qed
qed

lemma set_path_total:
  "(\<And>r. strict_prefix r q \<Longrightarrow> r \<noteq> [] \<Longrightarrow> \<exists>fs. lookup_path t r = Some (JObject fs)) \<Longrightarrow>
   \<exists>t'. set_path t q v = Some t'"
proof (induction q arbitrary: t)
  case Nil
  show ?case by simp
next
  case (Cons k q)
  show ?case
  proof (cases "q = []")
    case True
    then show ?thesis by simp
  next
    case False
    then have "strict_prefix [k] (k # q)" by (cases q) simp_all
    from Cons.prems [OF this] obtain sub where sub: "map_of t k = Some (JObject sub)"
      by auto
    have "\<exists>fs. lookup_path sub r = Some (JObject fs)" if "strict_prefix r q" "r \<noteq> []" for r
    proof -
      from that have "strict_prefix (k # r) (k # q)" by simp
      from Cons.prems [OF this] show ?thesis
        using that(2) sub by (simp add: lookup_path_Cons)
    qed
    from Cons.IH [OF this] obtain s where "set_path sub q v = Some s" by blast
    then show ?thesis
      using False sub by (simp add: set_path_Cons)
  qed
qed

lemma lookup_path_prefix_object:
  "lookup_path t p = Some v \<Longrightarrow> strict_prefix r p \<Longrightarrow> r \<noteq> [] \<Longrightarrow>
   \<exists>fs. lookup_path t r = Some (JObject fs)"
proof (induction p arbitrary: t r)
  case Nil
  then show ?case by simp
next
  case (Cons k q)
  from Cons.prems(2,3) obtain r' where r: "r = k # r'" "strict_prefix r' q"
    by (cases r) auto
  then have ne: "q \<noteq> []" by auto
  with Cons.prems(1) obtain sub where
    sub: "map_of t k = Some (JObject sub)" "lookup_path sub q = Some v"
    by (auto simp: lookup_path_Cons split: option.splits json.splits)
  show ?case
  proof (cases "r' = []")
    case True
    then show ?thesis by (simp add: r(1) sub(1))
  next
    case False
    from Cons.IH [OF sub(2) r(2) False] show ?thesis
      using False by (simp add: r(1) sub(1) lookup_path_Cons)
  qed
qed

section \<open>The paths of the tasks\<close>

lemma diff_distinct_keys:
  "wf_fields src \<Longrightarrow> distinct (map key (snd (diff src t)))"
proof (induction src arbitrary: t rule: fields_induct)
  case Nil
  show ?case by simp
next
  case (Obj k src rest)
  define sub where "sub = (case map_of t k of Some (JObject s) \<Rightarrow> s | _ \<Rightarrow> [])"
  define S where "S = fst (diff src sub)"
  define K1 where "K1 = snd (diff src sub)"
  define K2 where "K2 = snd (diff rest (set_prop t k (JObject S)))"
  from Obj.prems have wf: "k \<notin> fst ` set rest" "wf_fields src" "wf_fields rest" by simp_all
  have eq: "map key (snd (diff ((k, JObject src) # rest) t))
              = map ((#) k) (map key K1) @ map key K2"
    by (simp add: diff_obj Let_def sub_def S_def K1_def K2_def comp_def)
  have d1: "distinct (map ((#) k) (map key K1))"
    unfolding K1_def using Obj.IH(1) [OF wf(2)] by (simp add: distinct_map inj_on_def)
  have d2: "distinct (map key K2)"
    unfolding K2_def by (rule Obj.IH(2) [OF wf(3)])
  have "hd p \<noteq> k" if "p \<in> set (map key K2)" for p
  proof -
    from that obtain y where "y \<in> set K2" "p = key y" by auto
    then obtain k' q where "p = k' # q" "k' \<in> fst ` set rest"
      unfolding K2_def using diff_key_hd by blast
    with wf(1) show ?thesis by auto
  qed
  then have "set (map ((#) k) (map key K1)) \<inter> set (map key K2) = {}"
    by (intro equals0I) (metis IntD1 IntD2 imageE list.sel(1) set_map)
  with d1 d2 show ?case
    unfolding eq by simp
next
  case (Str k s rest)
  from Str.prems have wf: "k \<notin> fst ` set rest" "wf_fields rest" by simp_all
  have "[k] \<notin> key ` set (snd (diff rest u))" for u
  proof
    assume "[k] \<in> key ` set (snd (diff rest u))"
    then obtain y where "y \<in> set (snd (diff rest u))" "key y = [k]" by auto
    then have "k \<in> fst ` set rest" using diff_key_hd [of y rest u] by auto
    with wf(1) show False by simp
  qed
  then show ?case
    using Str.IH [OF wf(2)] by (simp add: diff_str Let_def)
next
  case (Other k v rest)
  from Other.prems have wf: "wf_fields rest" by (simp split: json.splits)
  show ?case
    using Other(1,2) Other.IH [OF wf] by (simp add: diff_other)
qed

lemma diff_separate_paths:
  assumes "wf_fields src"
  shows "separate_paths (snd (diff src t))"
  unfolding separate_paths_def
proof (intro conjI ballI impI)
  fix x assume "x \<in> set (snd (diff src t))"
  then show "key x \<noteq> []" using diff_key_hd [of x src t] by auto
next
  show "distinct (map key (snd (diff src t)))"
    by (rule diff_distinct_keys [OF assms])
next
  fix x y
  assume x: "x \<in> set (snd (diff src t))" and y: "y \<in> set (snd (diff src t))"
    and ne: "key x \<noteq> key y"
  from x have lx: "lookup_path src (key x) = Some (JString (value x))"
    using diff_task_iff [OF assms, of x t] by simp
  from y have ly: "lookup_path src (key y) = Some (JString (value y))"
    using diff_task_iff [OF assms, of y t] by simp
  from x have nx: "key x \<noteq> []" using diff_key_hd [of x src t] by auto
  from y have ny: "key y \<noteq> []" using diff_key_hd [of y src t] by auto
  show "key x \<parallel> key y"
  proof (rule parallelI)
    show "\<not> prefix (key x) (key y)"
    proof
      assume "prefix (key x) (key y)"
      with ne have "strict_prefix (key x) (key y)" by (simp add: strict_prefix_def)
      from lookup_path_prefix_object [OF ly this nx] lx show False by simp
    qed
    show "\<not> prefix (key y) (key x)"
    proof
      assume "prefix (key y) (key x)"
      with ne have "strict_prefix (key y) (key x)" by (simp add: strict_prefix_def)
      from lookup_path_prefix_object [OF lx this ny] ly show False by simp
    qed
  qed
qed

lemma diff_objects_along:
  assumes "wf_fields src"
  shows "objects_along (fst (diff src t)) (snd (diff src t))"
  unfolding objects_along_def
proof (intro ballI allI impI)
  fix x r
  assume "x \<in> set (snd (diff src t))" and r: "strict_prefix r (key x) \<and> r \<noteq> []"
  then have "lookup_path (fst (diff src t)) (key x) = Some (JString [])"
    using diff_placeholder [OF assms] by blast
  from lookup_path_prefix_object [OF this] r
  show "\<exists>fs. lookup_path (fst (diff src t)) r = Some (JObject fs)" by blast
qed

lemma separate_pathsD:
  "separate_paths ks \<Longrightarrow> x \<in> set ks \<Longrightarrow> y \<in> set ks \<Longrightarrow> key x \<noteq> key y \<Longrightarrow>
   key x \<parallel> key y"
  by (simp add: separate_paths_def)

lemma objects_along_set_path:
  assumes sep: "separate_paths ks" and x: "x \<in> set ks"
    and inv: "objects_along t ks" and w: "set_path t (key x) v = Some t'"
  shows "objects_along t' ks"
  unfolding objects_along_def
proof (intro ballI allI impI)
  fix y r
  assume y: "y \<in> set ks" and r: "strict_prefix r (key y) \<and> r \<noteq> []"
  from inv y r obtain fs where before: "lookup_path t r = Some (JObject fs)"
    unfolding objects_along_def by blast
  show "\<exists>fs. lookup_path t' r = Some (JObject fs)"
  proof (cases "strict_prefix r (key x)")
    case True
    with w r show ?thesis using set_path_prefix_object by blast
  next
    case False
    have "\<not> prefix (key x) r"
    proof
      assume px: "prefix (key x) r"
      from r have "strict_prefix r (key y)" by simp
      with px have "strict_prefix (key x) (key y)"
        by (rule prefix_order.le_less_trans)
      then have "key x \<noteq> key y" "prefix (key x) (key y)"
        by (simp_all add: strict_prefix_def)
      with separate_pathsD [OF sep x y] show False by (simp add: parallel_def)
    qed
    moreover have "\<not> prefix r (key x)"
    proof
      assume "prefix r (key x)"
      with False have "r = key x" by (simp add: strict_prefix_def)
      with r have "key x \<noteq> key y" "prefix (key x) (key y)" by (auto simp: strict_prefix_def)
      with separate_pathsD [OF sep x y] show False by (simp add: parallel_def)
    qed
    ultimately have "r \<parallel> key x" by (simp add: parallel_def)
    from set_path_parallel [OF this w] before show ?thesis by simp
  qed
qed

section \<open>The values of a batch\<close>

lemma callOpenAiTranslateBatch_length:
  "callOpenAiTranslateBatch provider keys w = (Inr ts, w') \<Longrightarrow> length ts = length keys"
  by (cases w)
     (auto simp: callOpenAiTranslateBatch_unroll Let_def
           split: option.splits payload.splits if_splits)

lemma zip_translated_length [simp]:
  "length (zip_translated batch translated i) = length batch"
  by (induction batch arbitrary: i) simp_all



lemma per_item_Cons:
  "per_item provider (item # batch) w =
     (if length (trim (value item)) = 0 then
        (Some [] # fst (per_item provider batch w), snd (per_item provider batch w))
      else
        (let c = callOpenAiTranslateBatch provider [value item] w;
             r = per_item provider batch (snd c)
         in ((case fst c of
                Inr translated \<Rightarrow> (case translated of [] \<Rightarrow> None | t # ts \<Rightarrow> Some t)
              | Inl err \<Rightarrow> Some (value item)) # fst r, snd r)))"
  by (simp add: case_prod_beta Let_def split: sum.splits)

declare per_item.simps(2) [simp del]

lemma per_item_length [simp]:
  "length (fst (per_item provider batch w)) = length batch"
  by (induction batch arbitrary: w) (simp_all add: per_item_Cons Let_def)


lemma zip_translated_defined:
  "i + length (filter (\<lambda>item. length (trim (value item)) > 0) batch) \<le> length translated \<Longrightarrow>
   None \<notin> set (zip_translated batch translated i)"
  by (induction batch arbitrary: i) (auto split: if_splits)

lemma per_item_defined: "None \<notin> set (fst (per_item provider batch w))"
proof (induction batch arbitrary: w)
  case Nil
  show ?case by simp
next
  case (Cons item batch)
  show ?case
  proof (cases "length (trim (value item)) = 0")
    case True
    then show ?thesis using Cons.IH [of w] by (simp add: per_item_Cons)
  next
    case False
    obtain res w1 where c: "callOpenAiTranslateBatch provider [value item] w = (res, w1)"
      by (cases "callOpenAiTranslateBatch provider [value item] w")
    show ?thesis
    proof (cases res)
      case (Inl e)
      then show ?thesis using False c Cons.IH [of w1] by (simp add: per_item_Cons Let_def)
    next
      case (Inr ts)
      with c have "length ts = 1" using callOpenAiTranslateBatch_length by fastforce
      then obtain x where "ts = [x]" by (cases ts) auto
      then show ?thesis using False c Inr Cons.IH [of w1] by (simp add: per_item_Cons Let_def)
    qed
  qed
qed

lemma resolve_length [simp]: "length (fst (resolve provider batch w)) = length batch"
  by (simp add: resolve_def Let_def split: prod.splits sum.splits)

lemma resolve_defined: "None \<notin> set (fst (resolve provider batch w))"
proof -
  let ?tt = "filter (\<lambda>item. length (trim (value item)) > 0) batch"
  obtain res w1 where c: "callOpenAiTranslateBatch provider (map value ?tt) w = (res, w1)"
    by (cases "callOpenAiTranslateBatch provider (map value ?tt) w")
  show ?thesis
  proof (cases res)
    case (Inl e)
    then show ?thesis using c per_item_defined [of provider batch w1]
      by (simp add: resolve_def Let_def)
  next
    case (Inr ts)
    with c have "length ts = length ?tt" using callOpenAiTranslateBatch_length by fastforce
    then have "None \<notin> set (zip_translated batch ts 0)"
      by (intro zip_translated_defined) simp
    then show ?thesis using c Inr
      by (simp add: resolve_def Let_def)
  qed
qed

section \<open>The writes of a batch and the loop over the batches\<close>

lemma separate_paths_Cons:
  "separate_paths (item # batch) \<Longrightarrow>
   separate_paths batch \<and> key item \<noteq> [] \<and> (\<forall>x \<in> set batch. key item \<parallel> key x)"
  unfolding separate_paths_def by auto

lemma apply_batch_result:
  assumes "apply_batch batch vals (t, n) = Some (t', n')"
    and "length vals = length batch" and "separate_paths batch"
  shows "n' = n + length batch
         \<and> (\<forall>j < length batch. \<exists>v. vals ! j = Some v
                \<and> lookup_path t' (key (batch ! j)) = Some (JString v))
         \<and> (\<forall>p. (\<forall>x \<in> set batch. p \<parallel> key x) \<longrightarrow> lookup_path t' p = lookup_path t p)"
  using assms
proof (induction batch arbitrary: vals t n)
  case Nil
  then show ?case by simp
next
  case (Cons item batch)
  from Cons.prems(2) obtain ov vals' where vals: "vals = ov # vals'" "length vals' = length batch"
    by (cases vals) auto
  from Cons.prems(1) obtain v where ov: "ov = Some v"
    unfolding vals by (cases ov) auto
  from Cons.prems(1) obtain t1 where
    w: "set_path t (key item) (JString v) = Some t1"
    and rest: "apply_batch batch vals' (t1, Suc n) = Some (t', n')"
    unfolding vals ov by (auto split: option.splits)
  from separate_paths_Cons [OF Cons.prems(3)] have
    sep: "separate_paths batch" and ne: "key item \<noteq> []"
    and par: "\<forall>x \<in> set batch. key item \<parallel> key x" by simp_all
  from Cons.IH [OF rest vals(2) sep] have
    cnt: "n' = Suc n + length batch"
    and leaves: "\<forall>j < length batch. \<exists>v. vals' ! j = Some v
                   \<and> lookup_path t' (key (batch ! j)) = Some (JString v)"
    and other: "\<forall>p. (\<forall>x \<in> set batch. p \<parallel> key x) \<longrightarrow> lookup_path t' p = lookup_path t1 p"
    by simp_all
  have here: "lookup_path t' (key item) = Some (JString v)"
    using other par set_path_lookup [OF ne w] by simp
  have "\<exists>u. (ov # vals') ! j = Some u
          \<and> lookup_path t' (key ((item # batch) ! j)) = Some (JString u)"
    if "j < length (item # batch)" for j
  proof (cases j)
    case 0
    then show ?thesis using here ov by simp
  next
    case (Suc j')
    with that leaves show ?thesis by simp
  qed
  moreover have "lookup_path t' p = lookup_path t p"
    if "\<forall>x \<in> set (item # batch). p \<parallel> key x" for p
  proof -
    from that have "lookup_path t' p = lookup_path t1 p" using other by simp
    also from that have "\<dots> = lookup_path t p" using set_path_parallel [OF _ w] by simp
    finally show ?thesis .
  qed
  ultimately show ?case
    using cnt unfolding vals by simp
qed

lemma apply_batch_total:
  assumes "None \<notin> set vals" and "length vals = length batch"
    and "separate_paths ks" and "set batch \<subseteq> set ks" and "objects_along t ks"
  shows "\<exists>t' n'. apply_batch batch vals (t, n) = Some (t', n') \<and> objects_along t' ks"
  using assms
proof (induction batch arbitrary: vals t n)
  case Nil
  then show ?case by simp
next
  case (Cons item batch)
  from Cons.prems(2) obtain ov vals' where vals: "vals = ov # vals'" "length vals' = length batch"
    by (cases vals) auto
  from Cons.prems(1) obtain v where ov: "ov = Some v" and def': "None \<notin> set vals'"
    unfolding vals by (cases ov) auto
  from Cons.prems(4) have item: "item \<in> set ks" and sub: "set batch \<subseteq> set ks" by simp_all
  have "\<exists>fs. lookup_path t r = Some (JObject fs)" if "strict_prefix r (key item)" "r \<noteq> []" for r
    using Cons.prems(5) item that unfolding objects_along_def by blast
  from set_path_total [OF this] obtain t1 where
    w: "set_path t (key item) (JString v) = Some t1" by blast
  have inv: "objects_along t1 ks"
    by (rule objects_along_set_path [OF Cons.prems(3) item Cons.prems(5) w])
  from Cons.IH [OF def' vals(2) Cons.prems(3) sub inv, of "Suc n"] show ?case
    unfolding vals ov by (simp add: w)
qed

lemma translateAndApply_from_step:
  "i < length keys \<Longrightarrow>
   translateAndApply_from provider keys i (t, n, w) =
     (case apply_batch (take BATCH_SIZE (drop i keys))
             (fst (resolve provider (take BATCH_SIZE (drop i keys)) w)) (t, n) of
        None \<Rightarrow> None
      | Some (t1, n1) \<Rightarrow>
          translateAndApply_from provider keys (i + BATCH_SIZE)
            (t1, n1, snd (resolve provider (take BATCH_SIZE (drop i keys)) w)))"
  by (simp add: Let_def case_prod_beta split: option.splits)

lemma translateAndApply_from_done:
  "\<not> i < length keys \<Longrightarrow> translateAndApply_from provider keys i (t, n, w) = Some (t, n, w)"
  by simp

declare translateAndApply_from.simps [simp del]

lemma separate_paths_batch:
  "separate_paths keys \<Longrightarrow> separate_paths (take m (drop i keys))"
  unfolding separate_paths_def
  by (auto dest!: in_set_takeD in_set_dropD simp: distinct_take distinct_drop
           simp flip: take_map drop_map)


lemma in_batch_nth:
  "x \<in> set (take m (drop i keys)) \<Longrightarrow> \<exists>j. i \<le> j \<and> j < length keys \<and> x = keys ! j"
proof -
  assume "x \<in> set (take m (drop i keys))"
  then obtain a where a: "a < length (take m (drop i keys))" "x = take m (drop i keys) ! a"
    by (auto simp: in_set_conv_nth)
  from a(1) have lt: "a < length keys - i" "a < m" by simp_all
  then have "i + a < length keys" by arith
  moreover from a(2) lt have "x = keys ! (i + a)" by simp
  ultimately show ?thesis by (intro exI [of _ "i + a"]) simp
qed

lemma translateAndApply_from_result:
  assumes "translateAndApply_from provider keys i (t, n, w) = Some (t', n', w')"
    and "separate_paths keys"
  shows "n' = n + (length keys - i)
         \<and> (\<forall>p. (\<forall>j. i \<le> j \<and> j < length keys \<longrightarrow> p \<parallel> key (keys ! j))
                \<longrightarrow> lookup_path t' p = lookup_path t p)"
  using assms(1)
proof (induction "length keys - i" arbitrary: i t n w rule: less_induct)
  case less
  show ?case
  proof (cases "i < length keys")
    case False
    with less.prems show ?thesis by (simp add: translateAndApply_from_done)
  next
    case True
    define batch where "batch = take BATCH_SIZE (drop i keys)"
    define vals where "vals = fst (resolve provider batch w)"
    define w1 where "w1 = snd (resolve provider batch w)"
    from less.prems True obtain t1 n1 where
      ap: "apply_batch batch vals (t, n) = Some (t1, n1)"
      and rec: "translateAndApply_from provider keys (i + BATCH_SIZE) (t1, n1, w1) = Some (t', n', w')"
      by (auto simp: translateAndApply_from_step batch_def vals_def w1_def split: option.splits)
    have len: "length vals = length batch" by (simp add: vals_def)
    have sep: "separate_paths batch"
      unfolding batch_def by (rule separate_paths_batch [OF assms(2)])
    from apply_batch_result [OF ap len sep] have
      cnt1: "n1 = n + length batch"
      and other1: "\<forall>p. (\<forall>x \<in> set batch. p \<parallel> key x) \<longrightarrow> lookup_path t1 p = lookup_path t p"
      by simp_all
    have "length keys - (i + BATCH_SIZE) < length keys - i"
      using True by (simp add: BATCH_SIZE_def)
    from less.hyps [OF this rec] have
      cnt2: "n' = n1 + (length keys - (i + BATCH_SIZE))"
      and other2: "\<forall>p. (\<forall>j. i + BATCH_SIZE \<le> j \<and> j < length keys \<longrightarrow> p \<parallel> key (keys ! j))
                     \<longrightarrow> lookup_path t' p = lookup_path t1 p"
      by simp_all
    have "n' = n + (length keys - i)"
      using cnt1 cnt2 True by (simp add: batch_def min_def)
    moreover have "lookup_path t' p = lookup_path t p"
      if p: "\<forall>j. i \<le> j \<and> j < length keys \<longrightarrow> p \<parallel> key (keys ! j)" for p
    proof -
      have "\<forall>x \<in> set batch. p \<parallel> key x"
      proof
        fix x assume "x \<in> set batch"
        then obtain j where "i \<le> j" "j < length keys" "x = keys ! j"
          unfolding batch_def using in_batch_nth [of x BATCH_SIZE i keys] by blast
        with p show "p \<parallel> key x" by simp
      qed
      with other1 have "lookup_path t1 p = lookup_path t p" by simp
      moreover from p other2 have "lookup_path t' p = lookup_path t1 p" by simp
      ultimately show ?thesis by simp
    qed
    ultimately show ?thesis by simp
  qed
qed

lemma translateAndApply_from_total:
  assumes "separate_paths keys" and "objects_along t keys"
  shows "\<exists>t' n' w'. translateAndApply_from provider keys i (t, n, w) = Some (t', n', w')"
  using assms(2)
proof (induction "length keys - i" arbitrary: i t n w rule: less_induct)
  case less
  show ?case
  proof (cases "i < length keys")
    case False
    then show ?thesis by (simp add: translateAndApply_from_done)
  next
    case True
    define batch where "batch = take BATCH_SIZE (drop i keys)"
    define vals where "vals = fst (resolve provider batch w)"
    define w1 where "w1 = snd (resolve provider batch w)"
    have "None \<notin> set vals" "length vals = length batch"
      by (simp_all add: vals_def resolve_defined)
    moreover have "set batch \<subseteq> set keys"
      unfolding batch_def by (auto dest: in_set_takeD in_set_dropD)
    ultimately obtain t1 n1 where
      ap: "apply_batch batch vals (t, n) = Some (t1, n1)" and inv: "objects_along t1 keys"
      using apply_batch_total [OF _ _ assms(1) _ less.prems] by blast
    have "length keys - (i + BATCH_SIZE) < length keys - i"
      using True by (simp add: BATCH_SIZE_def)
    from less.hyps [OF this inv] show ?thesis
      using True ap by (simp add: translateAndApply_from_step batch_def vals_def w1_def)
  qed
qed

lemma batch_leaves:
  assumes run: "translateAndApply_from provider keys i (t, n, w) = Some (t', n', w')"
    and sep: "separate_paths keys" and i: "i < length keys"
    and j: "j < length (take BATCH_SIZE (drop i keys))"
  shows "\<exists>v. fst (resolve provider (take BATCH_SIZE (drop i keys)) w) ! j = Some v
           \<and> lookup_path t' (key (take BATCH_SIZE (drop i keys) ! j)) = Some (JString v)"
proof -
  define batch where "batch = take BATCH_SIZE (drop i keys)"
  define vals where "vals = fst (resolve provider batch w)"
  define w1 where "w1 = snd (resolve provider batch w)"
  from run i obtain t1 n1 where
    ap: "apply_batch batch vals (t, n) = Some (t1, n1)"
    and rec: "translateAndApply_from provider keys (i + BATCH_SIZE) (t1, n1, w1) = Some (t', n', w')"
    by (auto simp: translateAndApply_from_step batch_def vals_def w1_def split: option.splits)
  have len: "length vals = length batch" by (simp add: vals_def)
  have sepb: "separate_paths batch"
    unfolding batch_def by (rule separate_paths_batch [OF sep])
  from j have jb: "j < length batch" by (simp add: batch_def)
  with apply_batch_result [OF ap len sepb] obtain v where
    v: "vals ! j = Some v" "lookup_path t1 (key (batch ! j)) = Some (JString v)"
    by blast
  from jb have jlt: "j < length keys - i" "j < BATCH_SIZE"
    by (simp_all add: batch_def)
  then have pos: "i + j < length keys" "j < BATCH_SIZE" "batch ! j = keys ! (i + j)"
    using i by (simp_all add: batch_def)
  have "key (batch ! j) \<parallel> key (keys ! j')" if "i + BATCH_SIZE \<le> j' \<and> j' < length keys" for j'
  proof -
    from that pos have ne: "i + j \<noteq> j'" by simp
    from sep have d: "distinct (map key keys)" by (simp add: separate_paths_def)
    have l1: "i + j < length (map key keys)" and l2: "j' < length (map key keys)"
      using that pos(1) by simp_all
    from ne have "map key keys ! (i + j) \<noteq> map key keys ! j'"
      using nth_eq_iff_index_eq [OF d l1 l2] by simp
    then have "key (keys ! (i + j)) \<noteq> key (keys ! j')"
      using that pos(1) by simp
    then show ?thesis
      unfolding pos(3) using separate_pathsD [OF sep] that pos(1) by simp
  qed
  with translateAndApply_from_result [OF rec sep]
  have "lookup_path t' (key (batch ! j)) = lookup_path t1 (key (batch ! j))" by simp
  with v show ?thesis by (simp add: batch_def vals_def)
qed

section \<open>The partition of a batch\<close>







section \<open>The leaves that a batch leaves in the tree\<close>










section \<open>A whole run of the reconciler on the tasks of a diff\<close>

lemma translateAndApply_from_leaves:
  assumes "translateAndApply_from provider keys i (t, n, w) = Some (t', n', w')"
    and sep: "separate_paths keys"
  shows "\<forall>j. i \<le> j \<and> j < length keys \<longrightarrow> (\<exists>v. lookup_path t' (key (keys ! j)) = Some (JString v))"
  using assms(1)
proof (induction "length keys - i" arbitrary: i t n w rule: less_induct)
  case less
  show ?case
  proof (intro allI impI)
    fix j assume j: "i \<le> j \<and> j < length keys"
    then have i: "i < length keys" by simp
    define batch where "batch = take BATCH_SIZE (drop i keys)"
    show "\<exists>v. lookup_path t' (key (keys ! j)) = Some (JString v)"
    proof (cases "j < i + BATCH_SIZE")
      case True
      with j have lt: "j - i < length keys - i" "j - i < BATCH_SIZE" "i + (j - i) = j"
        by arith+
      then have jb: "j - i < length batch" "batch ! (j - i) = keys ! j"
        by (simp_all add: batch_def)
      from batch_leaves [OF less.prems sep i, of "j - i"] jb show ?thesis
        unfolding batch_def by auto
    next
      case False
      define w1 where "w1 = snd (resolve provider batch w)"
      from less.prems i obtain t1 n1 where
        rec: "translateAndApply_from provider keys (i + BATCH_SIZE) (t1, n1, w1) = Some (t', n', w')"
        by (auto simp: translateAndApply_from_step batch_def w1_def split: option.splits)
      have "length keys - (i + BATCH_SIZE) < length keys - i"
        using i by (simp add: BATCH_SIZE_def)
      from less.hyps [OF this rec] False j show ?thesis by simp
    qed
  qed
qed

lemma translateAndApply_diff:
  assumes wf: "wf_fields source"
  shows "\<exists>tree w'. translateAndApply provider (snd (diff source target)) (fst (diff source target)) w
            = Some (tree, length (snd (diff source target)), w')
          \<and> (\<forall>x \<in> set (snd (diff source target)). \<exists>v. lookup_path tree (key x) = Some (JString v))
          \<and> (\<forall>p. (\<forall>x \<in> set (snd (diff source target)). p \<parallel> key x)
                 \<longrightarrow> lookup_path tree p = lookup_path (fst (diff source target)) p)"
proof -
  define keys where "keys = snd (diff source target)"
  define t0 where "t0 = fst (diff source target)"
  have sep: "separate_paths keys"
    unfolding keys_def by (rule diff_separate_paths [OF wf])
  have inv: "objects_along t0 keys"
    unfolding keys_def t0_def by (rule diff_objects_along [OF wf])
  from translateAndApply_from_total [OF sep inv, of provider 0 0 w] obtain tree n' w' where
    run: "translateAndApply_from provider keys 0 (t0, 0, w) = Some (tree, n', w')" by blast
  from translateAndApply_from_result [OF run sep] have
    cnt: "n' = length keys"
    and other: "\<forall>p. (\<forall>j. j < length keys \<longrightarrow> p \<parallel> key (keys ! j))
                  \<longrightarrow> lookup_path tree p = lookup_path t0 p"
    by simp_all
  from translateAndApply_from_leaves [OF run sep] have
    leaves: "\<forall>j < length keys. \<exists>v. lookup_path tree (key (keys ! j)) = Some (JString v)"
    by simp
  have "\<forall>x \<in> set keys. \<exists>v. lookup_path tree (key x) = Some (JString v)"
    using leaves by (auto simp: in_set_conv_nth)
  moreover have "\<forall>p. (\<forall>x \<in> set keys. p \<parallel> key x) \<longrightarrow> lookup_path tree p = lookup_path t0 p"
    using other by simp
  ultimately show ?thesis
    using run cnt unfolding translateAndApply_def keys_def t0_def by blast
qed



section \<open>Properties of the orchestrator\<close>

lemma sync_locale_unfold:
  "sync_locale e provider source f w =
     (case content f of
        None \<Rightarrow> Some (Skipped, w)
      | Some target \<Rightarrow>
          (case (if shouldTranslate e \<and> snd (diff source target) \<noteq> [] then
                   (if apiKey e = [] then Some (fst (diff source target), 0, w)
                    else translateAndApply provider (snd (diff source target))
                           (fst (diff source target)) w)
                 else Some (fst (diff source target), 0, w)) of
             None \<Rightarrow> None
           | Some (tree, translatedCount, w') \<Rightarrow>
               if snd (diff source target) \<noteq> [] \<or> translatedCount > 0 then
                 (if writable f
                  then Some (Written tree (length (snd (diff source target))) translatedCount, w')
                  else Some (Skipped, w'))
               else Some (NoChanges, w')))"
  by (simp add: sync_locale_def diff_def case_prod_beta Let_def split: option.splits)

lemma sync_locale_outcome:
  assumes "wf_fields source \<or> \<not> shouldTranslate e \<or> apiKey e = []"
  shows "\<exists>out w'. sync_locale e provider source f w = Some (out, w')
           \<and> added_of out =
               (case content f of
                  None \<Rightarrow> 0
                | Some target \<Rightarrow> if writable f then length (snd (diff source target)) else 0)"
proof (cases "content f")
  case None
  then show ?thesis by (simp add: sync_locale_unfold)
next
  case (Some target)
  show ?thesis
  proof (cases "shouldTranslate e \<and> snd (diff source target) \<noteq> [] \<and> apiKey e \<noteq> []")
    case True
    with assms have "wf_fields source" by simp
    from translateAndApply_diff [OF this, of provider target w] obtain tree w' where
      "translateAndApply provider (snd (diff source target)) (fst (diff source target)) w
         = Some (tree, length (snd (diff source target)), w')" by blast
    with True Some show ?thesis by (simp add: sync_locale_unfold)
  next
    case False
    with Some show ?thesis by (auto simp: sync_locale_unfold)
  qed
qed

lemma main_loop_total:
  assumes "wf_fields source \<or> \<not> shouldTranslate e \<or> apiKey e = []"
  shows "\<exists>ta' tt' new w'.
           main_loop e provider source fs (ta, tt, outs, w) = Some (ta', tt', outs @ new, w')
           \<and> length new = length fs
           \<and> ta' = ta + sum_list (map added_of new)
           \<and> ta' = ta + sum_list (map (\<lambda>f. case content f of
                                          None \<Rightarrow> 0
                                        | Some target \<Rightarrow>
                                            if writable f then length (snd (diff source target))
                                            else 0) fs)"
proof (induction fs arbitrary: ta tt outs w)
  case Nil
  show ?case by simp
next
  case (Cons f fs)
  from sync_locale_outcome [OF assms, of provider f w] obtain out w1 where
    s: "sync_locale e provider source f w = Some (out, w1)"
       "added_of out = (case content f of None \<Rightarrow> 0
          | Some target \<Rightarrow> if writable f then length (snd (diff source target)) else 0)"
    by blast
  from Cons.IH [of "ta + added_of out" "tt + translated_of out" "outs @ [out]" w1]
  obtain ta' tt' new w' where
    r: "main_loop e provider source fs
          (ta + added_of out, tt + translated_of out, outs @ [out], w1)
        = Some (ta', tt', (outs @ [out]) @ new, w')"
       "length new = length fs"
       "ta' = ta + added_of out + sum_list (map added_of new)"
       "ta' = ta + added_of out + sum_list (map (\<lambda>f. case content f of
                                          None \<Rightarrow> 0
                                        | Some target \<Rightarrow>
                                            if writable f then length (snd (diff source target))
                                            else 0) fs)"
    by blast
  show ?case
    using s r by (intro exI [of _ ta'] exI [of _ tt'] exI [of _ "out # new"] exI [of _ w']) simp
qed


text \<open>
  C7. Every run ends, with exit code 0, 1 or 2. The code is 1 exactly when the catalog
  directory is not found, the source catalog cannot be read or the directory cannot be
  listed; no locale file has then been processed. Otherwise the code is 0 exactly when
  some processed locale file counts at least one added leaf, and 2 exactly when none
  does. In terms of the input, the code is 0 exactly when some locale file of the
  directory parses, misses a leaf of the source and is written.
\<close>

theorem exit_contract:
  assumes "\<forall>source. sourceJson e = Some source \<longrightarrow> wf_fields source"
  shows "\<exists>r w'. main e provider w = Some (r, w')
           \<and> (exit_code r = 1 \<longleftrightarrow> \<not> i18nDir e \<or> sourceJson e = None \<or> dirEntries e = None)
           \<and> (exit_code r = 1 \<longrightarrow> outcomes_of r = [] \<and> w' = w)
           \<and> (exit_code r = 0 \<longleftrightarrow> (\<exists>out \<in> set (outcomes_of r). added_of out > 0))
           \<and> (exit_code r = 2 \<longleftrightarrow>
                 i18nDir e \<and> sourceJson e \<noteq> None \<and> dirEntries e \<noteq> None
                 \<and> (\<forall>out \<in> set (outcomes_of r). added_of out = 0))
           \<and> (\<forall>source entries.
                 i18nDir e \<and> sourceJson e = Some source \<and> dirEntries e = Some entries \<longrightarrow>
                 (exit_code r = 0 \<longleftrightarrow>
                    (\<exists>f \<in> set entries. suffix ''.json'' (fileName f)
                        \<and> fileName f \<noteq> sourceFileName e \<and> writable f
                        \<and> (\<exists>target. content f = Some target \<and> snd (diff source target) \<noteq> []))))"
proof (cases "\<not> i18nDir e \<or> sourceJson e = None \<or> dirEntries e = None")
  case True
  have "\<exists>err. main e provider w = Some (Crashed err, w)"
  proof (cases "i18nDir e")
    case False
    then show ?thesis by (simp add: main_def)
  next
    case dir: True
    show ?thesis
    proof (cases "sourceJson e")
      case None
      with dir show ?thesis by (simp add: main_def)
    next
      case (Some source)
      with dir True have "dirEntries e = None" by simp
      with dir Some show ?thesis by (simp add: main_def)
    qed
  qed
  then obtain err where m: "main e provider w = Some (Crashed err, w)" by blast
  show ?thesis
    using m True by (intro exI [of _ "Crashed err"] exI [of _ w]) auto
next
  case False
  then obtain source entries where env: "i18nDir e" "sourceJson e = Some source"
    "dirEntries e = Some entries" by auto
  define files where
    "files = filter (\<lambda>f. suffix ''.json'' (fileName f) \<and> fileName f \<noteq> sourceFileName e) entries"
  define adds :: "locale_file \<Rightarrow> nat" where
    "adds = (\<lambda>f. case content f of None \<Rightarrow> 0
               | Some target \<Rightarrow> if writable f then length (snd (diff source target)) else 0)"
  from assms env(2) have wf: "wf_fields source \<or> \<not> shouldTranslate e \<or> apiKey e = []" by simp
  from main_loop_total [OF wf, of provider files 0 0 "[]" w] obtain ta tt new w' where
    loop: "main_loop e provider source files (0, 0, [], w) = Some (ta, tt, new, w')"
    and ta1: "ta = sum_list (map added_of new)"
    and ta2: "ta = sum_list (map adds files)"
    unfolding adds_def by auto
  define r where "r = (if ta = 0 then Exited 2 ta tt new else Exited 0 ta tt new)"
  have m: "main e provider w = Some (r, w')"
    using env loop by (simp add: main_def files_def r_def Let_def)
  have code: "exit_code r = (if ta = 0 then 2 else 0)" and outs: "outcomes_of r = new"
    by (simp_all add: r_def)
  have z1: "ta = 0 \<longleftrightarrow> (\<forall>out \<in> set new. added_of out = 0)"
    unfolding ta1 by auto
  have "adds f > 0 \<longleftrightarrow> writable f \<and> (\<exists>target. content f = Some target \<and> snd (diff source target) \<noteq> [])"
    for f
    by (cases "content f") (auto simp: adds_def)
  then have z2: "ta \<noteq> 0 \<longleftrightarrow>
      (\<exists>f \<in> set entries. suffix ''.json'' (fileName f) \<and> fileName f \<noteq> sourceFileName e
          \<and> writable f \<and> (\<exists>target. content f = Some target \<and> snd (diff source target) \<noteq> []))"
    unfolding ta2 files_def by auto
  have c1: "exit_code r \<noteq> 1" by (simp add: code)
  have c0: "exit_code r = 0 \<longleftrightarrow> (\<exists>out \<in> set (outcomes_of r). added_of out > 0)"
    using z1 by (auto simp: code outs)
  have c2: "exit_code r = 2 \<longleftrightarrow> (\<forall>out \<in> set (outcomes_of r). added_of out = 0)"
    using z1 by (simp add: code outs)
  have c3: "exit_code r = 0 \<longleftrightarrow>
      (\<exists>f \<in> set entries. suffix ''.json'' (fileName f) \<and> fileName f \<noteq> sourceFileName e
          \<and> writable f \<and> (\<exists>target. content f = Some target \<and> snd (diff source target) \<noteq> []))"
    using z2 by (auto simp: code)
  show ?thesis
    using m c0 c1 c2 c3 False env by (intro exI [of _ r] exI [of _ w']) simp
qed


theorem exit_contract_witness:
  "sourceJson example_env = Some small_source \<and> wf_fields small_source
   \<and> (\<exists>r w'. main example_env provider_down ([], []) = Some (r, w')
           \<and> (exit_code r = 1 \<longleftrightarrow>
                 \<not> i18nDir example_env \<or> sourceJson example_env = None
                 \<or> dirEntries example_env = None)
           \<and> (exit_code r = 1 \<longrightarrow> outcomes_of r = [] \<and> w' = ([], []))
           \<and> (exit_code r = 0 \<longleftrightarrow> (\<exists>out \<in> set (outcomes_of r). added_of out > 0))
           \<and> (exit_code r = 2 \<longleftrightarrow>
                 i18nDir example_env \<and> sourceJson example_env \<noteq> None
                 \<and> dirEntries example_env \<noteq> None
                 \<and> (\<forall>out \<in> set (outcomes_of r). added_of out = 0))
           \<and> (\<forall>source entries.
                 i18nDir example_env \<and> sourceJson example_env = Some source
                 \<and> dirEntries example_env = Some entries \<longrightarrow>
                 (exit_code r = 0 \<longleftrightarrow>
                    (\<exists>f \<in> set entries. suffix ''.json'' (fileName f)
                        \<and> fileName f \<noteq> sourceFileName example_env \<and> writable f
                        \<and> (\<exists>target. content f = Some target
                              \<and> snd (diff source target) \<noteq> [])))))"
proof -
  have src: "sourceJson example_env = Some small_source"
    by (simp add: example_env_def)
  have wf: "wf_fields small_source"
    by (simp add: small_source_def)
  have h: "\<forall>source. sourceJson example_env = Some source \<longrightarrow> wf_fields source"
    using src wf by simp
  show ?thesis
    using src wf exit_contract [where e = example_env and provider = provider_down
                                  and w = "([], [])", OF h]
    by blast
qed







end
